theory Spec2Isabelle
  imports Main
begin

section \<open>Symbols and strings\<close>

text \<open>
  A Python string is a sequence of Unicode code points; a one-character string is
  modelled by its code point, a natural number.  \<open>py_str\<close> reads an Isabelle
  string literal (bytes below 256) as such a sequence.
\<close>

type_synonym symbol = nat
type_synonym str = "symbol list"

definition py_str :: "string \<Rightarrow> str" where
  "py_str cs = map of_char cs"

definition DOT :: symbol where
  "DOT = 46"

definition STAR :: symbol where
  "STAR = 42"

definition PLUS :: symbol where
  "PLUS = 43"

text \<open>\<open>ch.isascii()\<close> on a one-character string: the code point is below 128.\<close>

definition isascii :: "symbol \<Rightarrow> bool" where
  "isascii ch = (ch < 128)"

section \<open>Errors\<close>

text \<open>
  The exceptions the program can raise: \<open>AttributeError\<close> when an attribute of
  \<open>None\<close> is read, \<open>IndexError\<close> when a list is indexed out of range, and
  \<open>RecursionError\<close> when a Python function is called with the interpreter's
  recursion limit reached.  The source defines no exception class of its own.
\<close>

datatype error = AttributeError | IndexError | RecursionError

section \<open>State objects and the store\<close>

text \<open>
  Every \<open>State\<close> object lives in a store; an address is its index there and a
  reference is \<open>Some a\<close>, or \<open>None\<close> for Python's \<open>None\<close>.  The subclasses
  are the constructors of \<open>state_class\<close>, each with the fields its \<open>__init__\<close>
  sets; \<open>next_states\<close> is the list every \<open>State.__init__\<close> creates empty.
  Neither the constructor of \<open>RegexFSM\<close> nor \<open>check_string\<close> calls the methods
  \<open>check_self\<close> and \<open>check_next\<close>, so they have no counterpart here.
\<close>

type_synonym addr = nat
type_synonym ref = "addr option"

datatype state_class =
    StartState
  | TerminationState
  | DotState
  | AsciiState symbol
  | StarState ref
  | PlusState ref

record state =
  cls :: state_class
  next_states :: "ref list"

type_synonym heap = "state list"

text \<open>Calling a state class: a fresh object with no outgoing edge.\<close>

definition new_object :: "heap \<Rightarrow> state_class \<Rightarrow> heap \<times> ref" where
  "new_object h k = (h @ [\<lparr>cls = k, next_states = []\<rparr>], Some (length h))"

text \<open>\<open>prev_state.next_states.append(x)\<close> for a reference that is not \<open>None\<close>.\<close>

definition append_next :: "heap \<Rightarrow> addr \<Rightarrow> ref \<Rightarrow> heap" where
  "append_next h a x = h[a := (h ! a)\<lparr>next_states := next_states (h ! a) @ [x]\<rparr>]"

text \<open>
  The class attribute \<open>RegexFSM.curr_state = StartState()\<close> is evaluated once, when
  the class body runs: the store then holds that one object, at address 0, and every
  instance reads \<open>self.curr_state\<close> from the class.
\<close>

definition curr_state :: ref where
  "curr_state = Some 0"

definition class_heap :: heap where
  "class_heap = [\<lparr>cls = StartState, next_states = []\<rparr>]"

section \<open>RegexFSM construction\<close>

record regexfsm =
  pattern :: str

text \<open>
  \<open>__init_next_state\<close>: the four tests in the source's order; when none holds the
  method falls off its end and returns \<open>None\<close>.
\<close>

definition init_next_state :: "heap \<Rightarrow> symbol \<Rightarrow> ref \<Rightarrow> ref \<Rightarrow> heap \<times> ref" where
  "init_next_state h next_token prev_state tmp_next_state =
     (if next_token = DOT then new_object h DotState
      else if next_token = STAR then new_object h (StarState tmp_next_state)
      else if next_token = PLUS then new_object h (PlusState tmp_next_state)
      else if isascii next_token then new_object h (AsciiState next_token)
      else (h, None))"

text \<open>
  The \<open>for ch in regex_expr\<close> loop of \<open>__init__\<close>, threading the store and the
  two local references.  Reading \<open>prev_state.next_states\<close> when \<open>prev_state\<close> is
  \<open>None\<close> raises; the store keeps what was done before.
\<close>

fun init_loop :: "heap \<Rightarrow> ref \<Rightarrow> ref \<Rightarrow> str \<Rightarrow> heap \<times> (error + ref)" where
  "init_loop h prev_state tmp_state [] = (h, Inr prev_state)"
| "init_loop h prev_state tmp_state (ch # rest) =
     (case init_next_state h ch prev_state tmp_state of
        (h1, new_state) \<Rightarrow>
          (case prev_state of
             None \<Rightarrow> (h1, Inl AttributeError)
           | Some a \<Rightarrow> init_loop (append_next h1 a new_state) new_state new_state rest))"

definition RegexFSM_init :: "heap \<Rightarrow> str \<Rightarrow> heap \<times> (error + regexfsm)" where
  "RegexFSM_init h regex_expr =
     (case init_loop h curr_state curr_state regex_expr of
        (h1, Inl e) \<Rightarrow> (h1, Inl e)
      | (h1, Inr prev_state) \<Rightarrow>
          (case prev_state of
             None \<Rightarrow> (h1, Inl AttributeError)
           | Some a \<Rightarrow>
               (case new_object h1 TerminationState of
                  (h2, t) \<Rightarrow> (append_next h2 a t, Inr \<lparr>pattern = regex_expr\<rparr>))))"

section \<open>check_string: the tokenizer\<close>

text \<open>
  A token is the pair \<open>(ch, quant)\<close> the source appends: \<open>ch\<close> a character,
  \<open>quant\<close> the string \<open>""\<close>, \<open>"*"\<close> or \<open>"+"\<close>.
\<close>

type_synonym token = "symbol \<times> str"

function tokens_loop :: "str \<Rightarrow> nat \<Rightarrow> token list \<Rightarrow> token list" where
  "tokens_loop p i tokens =
     (if i < length p then
        (if i + 1 < length p \<and> (p ! (i + 1)) \<in> set [STAR, PLUS]
         then tokens_loop p (i + 2) (tokens @ [(p ! i, [p ! (i + 1)])])
         else tokens_loop p (i + 1) (tokens @ [(p ! i, [])]))
      else tokens)"
  by pat_completeness auto
termination
  by (relation "measure (\<lambda>(p, i, tokens). length p - i)") auto

declare tokens_loop.simps [simp del]

section \<open>check_string: the backtracking matcher\<close>

definition ok :: "symbol \<Rightarrow> symbol \<Rightarrow> bool" where
  "ok symb c = (symb = DOT \<or> c = symb)"

text \<open>
  \<open>match\<close> is the nested function, with the variables it closes over (\<open>tokens\<close>,
  \<open>s\<close>) as parameters.  \<open>match_while\<close> is the \<open>while\<close> loop that the \<open>"*"\<close> and
  the \<open>"+"\<close> branch both run, from its entry with the current \<open>indx\<close>.  A call that
  raises passes the exception on; \<open>tokens[pattern_ind]\<close> past the end of the list is
  the one place of the body that can raise.  These two functions give the value
  \<open>match\<close> computes when the call stack is deep enough; \<open>match_fr\<close> below is the
  same body under the interpreter's recursion limit.
\<close>

function match :: "token list \<Rightarrow> str \<Rightarrow> nat \<Rightarrow> nat \<Rightarrow> error + bool"
  and match_while :: "token list \<Rightarrow> str \<Rightarrow> nat \<Rightarrow> symbol \<Rightarrow> nat \<Rightarrow> error + bool" where
  "match tokens s pattern_ind str_ind =
     (if pattern_ind = length tokens then Inr (str_ind = length s)
      else if length tokens < pattern_ind then Inl IndexError
      else
        (case tokens ! pattern_ind of
           (symb, quant) \<Rightarrow>
             if quant = [STAR] then
               (case match tokens s (pattern_ind + 1) str_ind of
                  Inl e \<Rightarrow> Inl e
                | Inr True \<Rightarrow> Inr True
                | Inr False \<Rightarrow> match_while tokens s pattern_ind symb str_ind)
             else if quant = [PLUS] then
               (if length s \<le> str_ind \<or> \<not> ok symb (s ! str_ind) then Inr False
                else
                  (case match tokens s (pattern_ind + 1) (str_ind + 1) of
                     Inl e \<Rightarrow> Inl e
                   | Inr True \<Rightarrow> Inr True
                   | Inr False \<Rightarrow> match_while tokens s pattern_ind symb (str_ind + 1)))
             else if str_ind < length s \<and> ok symb (s ! str_ind)
               then match tokens s (pattern_ind + 1) (str_ind + 1)
             else Inr False))"
| "match_while tokens s pattern_ind symb indx =
     (if indx < length s \<and> ok symb (s ! indx) then
        (case match tokens s (pattern_ind + 1) (indx + 1) of
           Inl e \<Rightarrow> Inl e
         | Inr True \<Rightarrow> Inr True
         | Inr False \<Rightarrow> match_while tokens s pattern_ind symb (indx + 1))
      else Inr False)"
  by pat_completeness auto
termination
  by (relation "inv_image (less_than <*lex*> less_than)
        (\<lambda>x. case x of
           Inl (tokens, s, pattern_ind, str_ind) \<Rightarrow>
             (Suc (length tokens) - pattern_ind,
              if length tokens < pattern_ind then 0 else length s + 2)
         | Inr (tokens, s, pattern_ind, symb, indx) \<Rightarrow>
             (Suc (length tokens) - pattern_ind, Suc (length s) - indx))")
    auto

declare match.simps [simp del] match_while.simps [simp del]

definition check_string :: "regexfsm \<Rightarrow> str \<Rightarrow> error + bool" where
  "check_string self s = match (tokens_loop (pattern self) 0 []) s 0 0"

section \<open>The calls one invocation of match makes\<close>

text \<open>
  \<open>match_calls tokens s pattern_ind str_ind\<close> lists, in order, the argument pairs
  \<open>(pattern_ind', str_ind')\<close> of the recursive calls that the body of
  \<open>match(pattern_ind, str_ind)\<close> itself makes: the body of \<open>match\<close> again,
  recording each call where the source makes it and going on exactly when the call
  returned \<open>False\<close>.  \<open>while_calls\<close> does the same for the \<open>while\<close> loop.
\<close>

function while_calls :: "token list \<Rightarrow> str \<Rightarrow> nat \<Rightarrow> symbol \<Rightarrow> nat \<Rightarrow> (nat \<times> nat) list" where
  "while_calls tokens s pattern_ind symb indx =
     (if indx < length s \<and> ok symb (s ! indx) then
        (pattern_ind + 1, indx + 1) #
          (case match tokens s (pattern_ind + 1) (indx + 1) of
             Inl e \<Rightarrow> []
           | Inr True \<Rightarrow> []
           | Inr False \<Rightarrow> while_calls tokens s pattern_ind symb (indx + 1))
      else [])"
  by pat_completeness auto
termination
  by (relation "measure (\<lambda>(tokens, s, pattern_ind, symb, indx). length s - indx)") auto

declare while_calls.simps [simp del]

definition match_calls :: "token list \<Rightarrow> str \<Rightarrow> nat \<Rightarrow> nat \<Rightarrow> (nat \<times> nat) list" where
  "match_calls tokens s pattern_ind str_ind =
     (if pattern_ind = length tokens then []
      else if length tokens < pattern_ind then []
      else
        (case tokens ! pattern_ind of
           (symb, quant) \<Rightarrow>
             if quant = [STAR] then
               (pattern_ind + 1, str_ind) #
                 (case match tokens s (pattern_ind + 1) str_ind of
                    Inl e \<Rightarrow> []
                  | Inr True \<Rightarrow> []
                  | Inr False \<Rightarrow> while_calls tokens s pattern_ind symb str_ind)
             else if quant = [PLUS] then
               (if length s \<le> str_ind \<or> \<not> ok symb (s ! str_ind) then []
                else
                  (pattern_ind + 1, str_ind + 1) #
                    (case match tokens s (pattern_ind + 1) (str_ind + 1) of
                       Inl e \<Rightarrow> []
                     | Inr True \<Rightarrow> []
                     | Inr False \<Rightarrow> while_calls tokens s pattern_ind symb (str_ind + 1)))
             else if str_ind < length s \<and> ok symb (s ! str_ind)
               then [(pattern_ind + 1, str_ind + 1)]
             else []))"

section \<open>The matcher under the recursion limit\<close>





section \<open>The tokenizer\<close>

text \<open>One round of the \<open>while\<close> loop of \<open>check_string\<close>, case by case.\<close>

lemma tokens_loop_end: "\<not> i < length p \<Longrightarrow> tokens_loop p i tokens = tokens"
  by (subst tokens_loop.simps) simp

lemma tokens_loop_quant:
  "i + 1 < length p \<Longrightarrow> p ! (i + 1) = STAR \<or> p ! (i + 1) = PLUS \<Longrightarrow>
     tokens_loop p i tokens = tokens_loop p (i + 2) (tokens @ [(p ! i, [p ! (i + 1)])])"
  by (subst tokens_loop.simps) auto

lemma tokens_loop_none:
  "i < length p \<Longrightarrow> \<not> (i + 1 < length p \<and> (p ! (i + 1) = STAR \<or> p ! (i + 1) = PLUS)) \<Longrightarrow>
     tokens_loop p i tokens = tokens_loop p (i + 1) (tokens @ [(p ! i, [])])"
  by (subst tokens_loop.simps) auto

lemma tokens_loop_concat:
  "concat (map (\<lambda>(ch, quant). ch # quant) (tokens_loop p i tokens)) =
     concat (map (\<lambda>(ch, quant). ch # quant) tokens) @ drop i p"
proof (induction p i tokens rule: tokens_loop.induct)
  case (1 p i tokens)
  show ?case
  proof (cases "i < length p")
    case False
    then show ?thesis by (simp add: tokens_loop_end)
  next
    case inb: True
    show ?thesis
    proof (cases "i + 1 < length p \<and> (p ! (i + 1)) \<in> set [STAR, PLUS]")
      case True
      have d: "drop i p = p ! i # p ! (i + 1) # drop (i + 2) p"
        using True inb by (simp add: Cons_nth_drop_Suc)
      have "tokens_loop p i tokens = tokens_loop p (i + 2) (tokens @ [(p ! i, [p ! (i + 1)])])"
        using True by (intro tokens_loop_quant) auto
      then show ?thesis
        using "1.IH"(1) [OF inb True] by (simp add: d)
    next
      case False
      have d: "drop i p = p ! i # drop (i + 1) p"
        using inb by (simp add: Cons_nth_drop_Suc)
      have "tokens_loop p i tokens = tokens_loop p (i + 1) (tokens @ [(p ! i, [])])"
        using False inb by (intro tokens_loop_none) auto
      then show ?thesis
        using "1.IH"(2) [OF inb False] by (simp add: d)
    qed
  qed
qed


lemma tokens_loop_append: "tokens_loop p i tokens = tokens @ tokens_loop p i []"
proof (induction "length p - i" arbitrary: i tokens rule: less_induct)
  case less
  show ?case
  proof (cases "i < length p")
    case False
    then show ?thesis by (simp add: tokens_loop_end)
  next
    case inb: True
    show ?thesis
    proof (cases "i + 1 < length p \<and> (p ! (i + 1) = STAR \<or> p ! (i + 1) = PLUS)")
      case True
      then have c: "i + 1 < length p" "p ! (i + 1) = STAR \<or> p ! (i + 1) = PLUS" by auto
      have m: "length p - (i + 2) < length p - i" using inb by simp
      have "tokens_loop p i tokens = (tokens @ [(p ! i, [p ! (i + 1)])]) @ tokens_loop p (i + 2) []"
        using less [OF m, of "tokens @ [(p ! i, [p ! (i + 1)])]"] tokens_loop_quant [OF c, of tokens]
        by simp
      moreover have "tokens_loop p i [] = ([] @ [(p ! i, [p ! (i + 1)])]) @ tokens_loop p (i + 2) []"
        using less [OF m, of "[] @ [(p ! i, [p ! (i + 1)])]"] tokens_loop_quant [OF c, of "[]"]
        by simp
      ultimately show ?thesis by simp
    next
      case False
      have m: "length p - (i + 1) < length p - i" using inb by simp
      have "tokens_loop p i tokens = (tokens @ [(p ! i, [])]) @ tokens_loop p (i + 1) []"
        using less [OF m, of "tokens @ [(p ! i, [])]"] tokens_loop_none [OF inb False, of tokens]
        by simp
      moreover have "tokens_loop p i [] = ([] @ [(p ! i, [])]) @ tokens_loop p (i + 1) []"
        using less [OF m, of "[] @ [(p ! i, [])]"] tokens_loop_none [OF inb False, of "[]"]
        by simp
      ultimately show ?thesis by simp
    qed
  qed
qed

lemma tokens_loop_atom:
  assumes inb: "i < length p"
  shows "tokens_loop p i tokens =
      tokens @
      (p ! i, if i + 1 < length p \<and> (p ! (i + 1) = STAR \<or> p ! (i + 1) = PLUS)
              then [p ! (i + 1)] else []) #
      tokens_loop p (if i + 1 < length p \<and> (p ! (i + 1) = STAR \<or> p ! (i + 1) = PLUS)
                     then i + 2 else i + 1) []"
proof (cases "i + 1 < length p \<and> (p ! (i + 1) = STAR \<or> p ! (i + 1) = PLUS)")
  case True
  then have c: "i + 1 < length p" "p ! (i + 1) = STAR \<or> p ! (i + 1) = PLUS" by auto
  show ?thesis
    using tokens_loop_quant [OF c, of tokens]
      tokens_loop_append [of p "i + 2" "tokens @ [(p ! i, [p ! (i + 1)])]"] True
    by simp
next
  case False
  show ?thesis
    using tokens_loop_none [OF inb False, of tokens]
      tokens_loop_append [of p "i + 1" "tokens @ [(p ! i, [])]"] False
    by auto
qed

text \<open>
  Claim C9.  For every pattern string \<open>p\<close>, the token list that \<open>check_string\<close> derives
  from \<open>p\<close> is a partition of \<open>p\<close>: writing each token's atom character followed by
  its quantifier string (empty when there is no quantifier), in order, gives back
  exactly \<open>p\<close>.
\<close>

theorem C9_tokens_partition:
  "concat (map (\<lambda>(ch, quant). ch # quant) (tokens_loop p 0 [])) = p"
  using tokens_loop_concat [of p 0 "[]"] by simp

section \<open>The matcher, branch by branch\<close>

lemma match_end: "match tokens s (length tokens) str_ind = Inr (str_ind = length s)"
  by (subst match.simps) simp

lemma match_past: "length tokens < pattern_ind \<Longrightarrow> match tokens s pattern_ind str_ind = Inl IndexError"
  by (subst match.simps) simp

lemma match_star:
  "pattern_ind < length tokens \<Longrightarrow> tokens ! pattern_ind = (symb, [STAR]) \<Longrightarrow>
     match tokens s pattern_ind str_ind =
       (case match tokens s (pattern_ind + 1) str_ind of
          Inl e \<Rightarrow> Inl e
        | Inr True \<Rightarrow> Inr True
        | Inr False \<Rightarrow> match_while tokens s pattern_ind symb str_ind)"
  by (subst match.simps) simp

lemma match_plus:
  "pattern_ind < length tokens \<Longrightarrow> tokens ! pattern_ind = (symb, [PLUS]) \<Longrightarrow>
     match tokens s pattern_ind str_ind =
       (if length s \<le> str_ind \<or> \<not> ok symb (s ! str_ind) then Inr False
        else
          (case match tokens s (pattern_ind + 1) (str_ind + 1) of
             Inl e \<Rightarrow> Inl e
           | Inr True \<Rightarrow> Inr True
           | Inr False \<Rightarrow> match_while tokens s pattern_ind symb (str_ind + 1)))"
  by (subst match.simps) (simp add: STAR_def PLUS_def)

lemma match_none:
  "pattern_ind < length tokens \<Longrightarrow> tokens ! pattern_ind = (symb, quant) \<Longrightarrow>
     quant \<noteq> [STAR] \<Longrightarrow> quant \<noteq> [PLUS] \<Longrightarrow>
     match tokens s pattern_ind str_ind =
       (if str_ind < length s \<and> ok symb (s ! str_ind)
        then match tokens s (pattern_ind + 1) (str_ind + 1)
        else Inr False)"
  by (subst match.simps) simp

lemma match_while_total:
  assumes "\<And>i. \<exists>b. match tokens s (pattern_ind + 1) i = Inr b"
  shows "\<exists>b. match_while tokens s pattern_ind symb indx = Inr b"
proof (induction "length s - indx" arbitrary: indx)
  case 0
  then show ?case by (subst match_while.simps) auto
next
  case (Suc n)
  obtain b where b: "match tokens s (pattern_ind + 1) (indx + 1) = Inr b"
    using assms by blast
  have "\<exists>b. match_while tokens s pattern_ind symb (indx + 1) = Inr b"
    using Suc by (intro Suc.hyps(1)) simp
  then show ?case
    using b by (subst match_while.simps) (auto split: bool.splits)
qed

lemma match_total:
  "pattern_ind \<le> length tokens \<Longrightarrow> \<exists>b. match tokens s pattern_ind str_ind = Inr b"
proof (induction "length tokens - pattern_ind" arbitrary: pattern_ind str_ind)
  case 0
  then have "pattern_ind = length tokens" by simp
  then show ?case by (simp add: match_end)
next
  case (Suc n)
  then have lt: "pattern_ind < length tokens" by simp
  have nxt: "\<exists>b. match tokens s (pattern_ind + 1) i = Inr b" for i
    using Suc by (intro Suc.hyps(1)) auto
  have loop: "\<exists>b. match_while tokens s pattern_ind symb indx = Inr b" for symb indx
    using nxt by (rule match_while_total)
  obtain symb quant where tk: "tokens ! pattern_ind = (symb, quant)"
    by (cases "tokens ! pattern_ind")
  consider "quant = [STAR]" | "quant = [PLUS]" | "quant \<noteq> [STAR]" "quant \<noteq> [PLUS]"
    by blast
  then show ?case
  proof cases
    case 1
    obtain b where "match tokens s (pattern_ind + 1) str_ind = Inr b" using nxt by blast
    then show ?thesis
      using loop [of symb str_ind] tk 1 lt by (cases b) (auto simp: match_star)
  next
    case 2
    obtain b where "match tokens s (pattern_ind + 1) (str_ind + 1) = Inr b" using nxt by blast
    then show ?thesis
      using loop [of symb "str_ind + 1"] tk 2 lt by (cases b) (auto simp: match_plus)
  next
    case 3
    then show ?thesis
      using nxt [of "str_ind + 1"] tk lt by (auto simp: match_none)
  qed
qed

text \<open>
  With a call stack of any depth \<open>check_string\<close> returns a boolean: the
  \<open>IndexError\<close> of \<open>tokens[pattern_ind]\<close> needs a \<open>pattern_ind\<close> past the end of the
  list, which no call starting from \<open>match(0, 0)\<close> reaches.
\<close>

lemma check_string_total: "\<exists>b. check_string self s = Inr b"
  unfolding check_string_def by (rule match_total) simp

section \<open>Patterns without quantifiers\<close>

lemma match_plain:
  assumes plain: "\<And>k. k < length tokens \<Longrightarrow> snd (tokens ! k) = []"
  shows "pattern_ind \<le> length tokens \<Longrightarrow>
     match tokens s pattern_ind str_ind =
       Inr (str_ind + (length tokens - pattern_ind) = length s \<and>
            (\<forall>k < length tokens - pattern_ind.
               ok (fst (tokens ! (pattern_ind + k))) (s ! (str_ind + k))))"
proof (induction "length tokens - pattern_ind" arbitrary: pattern_ind str_ind)
  case 0
  then have "pattern_ind = length tokens" by simp
  then show ?case by (auto simp: match_end)
next
  case (Suc n)
  then have lt: "pattern_ind < length tokens" by simp
  obtain symb quant where tk: "tokens ! pattern_ind = (symb, quant)"
    by (cases "tokens ! pattern_ind")
  have q: "quant = []" using plain [OF lt] tk by simp
  have step: "match tokens s pattern_ind str_ind =
       (if str_ind < length s \<and> ok symb (s ! str_ind)
        then match tokens s (pattern_ind + 1) (str_ind + 1)
        else Inr False)"
    using lt tk q by (intro match_none) (auto simp: STAR_def PLUS_def)
  have IH: "match tokens s (pattern_ind + 1) (str_ind + 1) =
       Inr (str_ind + 1 + (length tokens - (pattern_ind + 1)) = length s \<and>
            (\<forall>k < length tokens - (pattern_ind + 1).
               ok (fst (tokens ! (pattern_ind + 1 + k))) (s ! (str_ind + 1 + k))))"
    using Suc.hyps(2) lt by (intro Suc.hyps(1)) auto
  have split: "(\<forall>k < length tokens - pattern_ind.
               ok (fst (tokens ! (pattern_ind + k))) (s ! (str_ind + k))) \<longleftrightarrow>
        ok symb (s ! str_ind) \<and>
        (\<forall>k < length tokens - (pattern_ind + 1).
               ok (fst (tokens ! (pattern_ind + 1 + k))) (s ! (str_ind + 1 + k)))"
    (is "?L \<longleftrightarrow> ?A \<and> ?R")
  proof
    assume L: ?L
    have "?A" using L [rule_format, of 0] lt tk by simp
    moreover have "?R"
    proof (intro allI impI)
      fix k assume "k < length tokens - (pattern_ind + 1)"
      then have "Suc k < length tokens - pattern_ind" by simp
      from L [rule_format, OF this] show "ok (fst (tokens ! (pattern_ind + 1 + k))) (s ! (str_ind + 1 + k))"
        by simp
    qed
    ultimately show "?A \<and> ?R" ..
  next
    assume AR: "?A \<and> ?R"
    show ?L
    proof (intro allI impI)
      fix k assume k: "k < length tokens - pattern_ind"
      show "ok (fst (tokens ! (pattern_ind + k))) (s ! (str_ind + k))"
      proof (cases k)
        case 0
        then show ?thesis using AR tk by simp
      next
        case (Suc j)
        then have "j < length tokens - (pattern_ind + 1)" using k by simp
        then show ?thesis using AR Suc by simp
      qed
    qed
  qed
  show ?case
    unfolding step IH split using lt by auto
qed



section \<open>What the constructor returns\<close>

lemma init_next_state_ref:
  "snd (init_next_state h ch prev_state tmp) = (if isascii ch then Some (length h) else None)"
  by (simp add: init_next_state_def new_object_def isascii_def DOT_def STAR_def PLUS_def)

lemma init_loop_None:
  "snd (init_loop h None tmp p) = (if p = [] then Inr None else Inl AttributeError)"
  by (cases p) (simp_all split: prod.splits)

lemma init_loop_ascii:
  "\<forall>c \<in> set p. isascii c \<Longrightarrow> \<exists>b. snd (init_loop h (Some a) tmp p) = Inr (Some b)"
proof (induction p arbitrary: h a tmp)
  case Nil
  then show ?case by simp
next
  case (Cons ch rest)
  obtain h1 new where st: "init_next_state h ch (Some a) tmp = (h1, new)"
    by (cases "init_next_state h ch (Some a) tmp")
  have "new = Some (length h)"
    using init_next_state_ref [of h ch "Some a" tmp] st Cons.prems by simp
  then show ?case
    using Cons.IH [of "append_next h1 a new" "length h" new] Cons.prems st by simp
qed

lemma init_loop_not_ascii:
  "\<exists>c \<in> set p. \<not> isascii c \<Longrightarrow>
     snd (init_loop h (Some a) tmp p) = Inl AttributeError \<or>
     snd (init_loop h (Some a) tmp p) = Inr None"
proof (induction p arbitrary: h a tmp)
  case Nil
  then show ?case by simp
next
  case (Cons ch rest)
  obtain h1 new where st: "init_next_state h ch (Some a) tmp = (h1, new)"
    by (cases "init_next_state h ch (Some a) tmp")
  have new: "new = (if isascii ch then Some (length h) else None)"
    using init_next_state_ref [of h ch "Some a" tmp] st by simp
  have step: "init_loop h (Some a) tmp (ch # rest) = init_loop (append_next h1 a new) new new rest"
    using st by simp
  show ?case
  proof (cases "isascii ch")
    case True
    then have "\<exists>c \<in> set rest. \<not> isascii c" using Cons.prems by auto
    then show ?thesis
      using Cons.IH [of "append_next h1 a new" "length h" new] new True step by simp
  next
    case False
    then show ?thesis
      using init_loop_None [of "append_next h1 a new" new rest] new step by simp
  qed
qed

lemma RegexFSM_init_result:
  "snd (RegexFSM_init h p) =
     (if \<forall>c \<in> set p. isascii c then Inr \<lparr>pattern = p\<rparr> else Inl AttributeError)"
proof (cases "\<forall>c \<in> set p. isascii c")
  case True
  obtain h1 r where il: "init_loop h (Some 0) (Some 0) p = (h1, r)"
    by (cases "init_loop h (Some 0) (Some 0) p")
  obtain b where "r = Inr (Some b)"
    using init_loop_ascii [OF True, of h 0 "Some 0"] il by auto
  then show ?thesis
    using True il by (simp add: RegexFSM_init_def curr_state_def new_object_def)
next
  case False
  obtain h1 r where il: "init_loop h (Some 0) (Some 0) p = (h1, r)"
    by (cases "init_loop h (Some 0) (Some 0) p")
  have "r = Inl AttributeError \<or> r = Inr None"
    using init_loop_not_ascii [of p h 0 "Some 0"] False il by auto
  then show ?thesis
    using False il by (cases r) (auto simp add: RegexFSM_init_def curr_state_def)
qed

text \<open>
  Claim C5 fails on the code in the error it names.  Construction does fail exactly
  for the patterns that hold a character that is not ASCII, and succeeds for all
  others (\<open>RegexFSM_init_result\<close>, whatever store the constructor starts from).  But
  no \<open>InvalidPatternSymbol\<close> is raised, and none is defined: \<open>__init_next_state\<close>
  tests \<open>isascii()\<close> and, with no branch for the other case, returns \<open>None\<close>.  The
  constructor appends that \<open>None\<close> to the \<open>next_states\<close> of the last state, which
  for a first character is the Start object shared by all instances, and fails
  only at the next read of \<open>prev_state.next_states\<close>, with \<open>AttributeError\<close>: after
  the loop for the pattern of the one character with code point 233, inside the
  loop for the pattern of the three characters 97, 233, 98.
\<close>

theorem C5_non_ascii_pattern_raises_AttributeError:
  "RegexFSM_init class_heap [233] =
     ([\<lparr>cls = StartState, next_states = [None]\<rparr>], Inl AttributeError)
   \<and> RegexFSM_init class_heap [97, 233, 98] =
     ([\<lparr>cls = StartState, next_states = [Some 1]\<rparr>,
       \<lparr>cls = AsciiState 97, next_states = [None]\<rparr>,
       \<lparr>cls = AsciiState 98, next_states = []\<rparr>], Inl AttributeError)"
  by code_simp

section \<open>check_string under the recursion limit\<close>

















section \<open>One atom with a quantifier\<close>

lemma tokens_loop_single_quant:
  "q = STAR \<or> q = PLUS \<Longrightarrow> tokens_loop [X, q] 0 [] = [(X, [q])]"
proof -
  assume q: "q = STAR \<or> q = PLUS"
  have "tokens_loop [X, q] 0 [] = tokens_loop [X, q] (0 + 2) ([] @ [([X, q] ! 0, [[X, q] ! (0 + 1)])])"
    using q by (intro tokens_loop_quant) auto
  also have "\<dots> = [] @ [([X, q] ! 0, [[X, q] ! (0 + 1)])]"
    by (rule tokens_loop_end) simp
  finally show ?thesis by simp
qed

lemma match_while_all:
  assumes "\<forall>c \<in> set s. ok X c"
  shows "indx < length s \<Longrightarrow> match_while [(X, q)] s 0 X indx = Inr True"
proof (induction "length s - indx" arbitrary: indx)
  case 0
  then show ?case by simp
next
  case (Suc n)
  have okx: "ok X (s ! indx)" using assms Suc.prems by simp
  have nxt: "match [(X, q)] s (0 + 1) (indx + 1) = Inr (indx + 1 = length s)"
    using match_end [of "[(X, q)]" s "indx + 1"] by simp
  show ?case
  proof (cases "indx + 1 = length s")
    case True
    then show ?thesis
      using okx Suc.prems nxt by (subst match_while.simps) simp
  next
    case False
    then have lt: "indx + 1 < length s" using Suc.prems by simp
    have "match_while [(X, q)] s 0 X (indx + 1) = Inr True"
      using Suc.hyps(2) lt by (intro Suc.hyps(1)) auto
    then show ?thesis
      using okx Suc.prems nxt False by (subst match_while.simps) simp
  qed
qed

text \<open>
  Claim C3.  For an atom \<open>X\<close> (an ASCII character, \<open>.\<close> included) the two-character
  pattern \<open>X*\<close> compiles, and \<open>check_string\<close> on it returns true for the empty input
  and for every input all of whose characters pass \<open>X\<close>'s test \<open>ok X\<close>.
\<close>

theorem C3_star_pattern:
  assumes ascii: "isascii X"
  shows "snd (RegexFSM_init h [X, STAR]) = Inr \<lparr>pattern = [X, STAR]\<rparr>
       \<and> check_string \<lparr>pattern = [X, STAR]\<rparr> [] = Inr True
       \<and> ((\<forall>c \<in> set s. ok X c) \<longrightarrow> check_string \<lparr>pattern = [X, STAR]\<rparr> s = Inr True)"
proof -
  have compiled: "snd (RegexFSM_init h [X, STAR]) = Inr \<lparr>pattern = [X, STAR]\<rparr>"
    using ascii by (simp add: RegexFSM_init_result) (simp add: isascii_def STAR_def)
  have tk: "tokens_loop [X, STAR] 0 [] = [(X, [STAR])]"
    by (simp add: tokens_loop_single_quant)
  have nxt: "match [(X, [STAR])] s' (0 + 1) 0 = Inr (0 = length s')" for s'
    using match_end [of "[(X, [STAR])]" s' 0] by simp
  have step: "match [(X, [STAR])] s' 0 0 =
       (case match [(X, [STAR])] s' (0 + 1) 0 of
          Inl e \<Rightarrow> Inl e
        | Inr True \<Rightarrow> Inr True
        | Inr False \<Rightarrow> match_while [(X, [STAR])] s' 0 X 0)" for s'
    by (rule match_star) simp_all
  have e: "match [(X, [STAR])] [] 0 0 = Inr True"
    unfolding step nxt by simp
  have a: "match [(X, [STAR])] s 0 0 = Inr True" if "\<forall>c \<in> set s. ok X c"
  proof (cases "s = []")
    case True
    then show ?thesis using e by simp
  next
    case False
    then have "match_while [(X, [STAR])] s 0 X 0 = Inr True"
      using that by (intro match_while_all) auto
    then show ?thesis
      unfolding step nxt using False by simp
  qed
  show ?thesis
    using compiled e a by (simp add: check_string_def tk)
qed

theorem C3_star_pattern_witness:
  "check_string \<lparr>pattern = py_str ''a*''\<rparr> (py_str ''aaaa'') = Inr True
   \<and> check_string \<lparr>pattern = py_str ''.*''\<rparr> (py_str ''xyz'') = Inr True
   \<and> snd (RegexFSM_init class_heap (py_str ''a*'')) = Inr \<lparr>pattern = py_str ''a*''\<rparr>"
  using C3_star_pattern [of 97 class_heap "py_str ''aaaa''"]
        C3_star_pattern [of 46 class_heap "py_str ''xyz''"]
  by (simp add: py_str_def STAR_def ok_def DOT_def isascii_def)

text \<open>
  Claim C4.  For an atom \<open>X\<close> the two-character pattern \<open>X+\<close> compiles, and
  \<open>check_string\<close> on it returns false for the empty input and true for every
  non-empty input all of whose characters pass \<open>ok X\<close>: one repetition, three, or any
  other number.
\<close>

theorem C4_plus_pattern:
  assumes ascii: "isascii X"
  shows "snd (RegexFSM_init h [X, PLUS]) = Inr \<lparr>pattern = [X, PLUS]\<rparr>
       \<and> check_string \<lparr>pattern = [X, PLUS]\<rparr> [] = Inr False
       \<and> (s \<noteq> [] \<and> (\<forall>c \<in> set s. ok X c) \<longrightarrow>
            check_string \<lparr>pattern = [X, PLUS]\<rparr> s = Inr True)"
proof -
  have compiled: "snd (RegexFSM_init h [X, PLUS]) = Inr \<lparr>pattern = [X, PLUS]\<rparr>"
    using ascii by (simp add: RegexFSM_init_result) (simp add: isascii_def PLUS_def)
  have tk: "tokens_loop [X, PLUS] 0 [] = [(X, [PLUS])]"
    by (simp add: tokens_loop_single_quant)
  have nxt: "match [(X, [PLUS])] s' (0 + 1) (0 + 1) = Inr (1 = length s')" for s'
    using match_end [of "[(X, [PLUS])]" s' 1] by simp
  have step: "match [(X, [PLUS])] s' 0 0 =
       (if length s' \<le> 0 \<or> \<not> ok X (s' ! 0) then Inr False
        else
          (case match [(X, [PLUS])] s' (0 + 1) (0 + 1) of
             Inl e \<Rightarrow> Inl e
           | Inr True \<Rightarrow> Inr True
           | Inr False \<Rightarrow> match_while [(X, [PLUS])] s' 0 X (0 + 1)))" for s'
    by (rule match_plus) simp_all
  have e: "match [(X, [PLUS])] [] 0 0 = Inr False"
    unfolding step by simp
  have a: "match [(X, [PLUS])] s 0 0 = Inr True" if ne: "s \<noteq> []" and all: "\<forall>c \<in> set s. ok X c"
  proof -
    have ok0: "ok X (s ! 0)" using ne all by (cases s) auto
    show ?thesis
    proof (cases "1 = length s")
      case True
      then show ?thesis unfolding step nxt using ok0 ne by simp
    next
      case False
      then have "0 + 1 < length s" using ne by (cases s) auto
      then have "match_while [(X, [PLUS])] s 0 X (0 + 1) = Inr True"
        using all by (intro match_while_all) auto
      then show ?thesis
        unfolding step nxt using False ok0 ne by simp
    qed
  qed
  show ?thesis
    using compiled e a by (simp add: check_string_def tk)
qed

theorem C4_plus_pattern_witness:
  "check_string \<lparr>pattern = py_str ''a+''\<rparr> (py_str ''a'') = Inr True
   \<and> check_string \<lparr>pattern = py_str ''a+''\<rparr> (py_str ''aaa'') = Inr True
   \<and> check_string \<lparr>pattern = py_str ''a+''\<rparr> [] = Inr False
   \<and> snd (RegexFSM_init class_heap (py_str ''a+'')) = Inr \<lparr>pattern = py_str ''a+''\<rparr>"
  using C4_plus_pattern [of 97 class_heap "py_str ''a''"]
        C4_plus_pattern [of 97 class_heap "py_str ''aaa''"]
  by (simp add: py_str_def PLUS_def ok_def DOT_def isascii_def)

section \<open>The demonstration at the end of the module\<close>

text \<open>
  Claim C1.  The pattern \<open>a*4.+hi\<close> compiles (here from the store the class body
  leaves, as in the module's main block), and \<open>check_string\<close> on it returns true for
  \<open>aaaaaa4uhi\<close> and \<open>4uhi\<close>, false for \<open>meow\<close> and \<open>pupupuuuu\<close>.
\<close>

theorem C1_demo_scenarios:
  "snd (RegexFSM_init class_heap (py_str ''a*4.+hi'')) = Inr \<lparr>pattern = py_str ''a*4.+hi''\<rparr>
   \<and> check_string \<lparr>pattern = py_str ''a*4.+hi''\<rparr> (py_str ''aaaaaa4uhi'') = Inr True
   \<and> check_string \<lparr>pattern = py_str ''a*4.+hi''\<rparr> (py_str ''4uhi'') = Inr True
   \<and> check_string \<lparr>pattern = py_str ''a*4.+hi''\<rparr> (py_str ''meow'') = Inr False
   \<and> check_string \<lparr>pattern = py_str ''a*4.+hi''\<rparr> (py_str ''pupupuuuu'') = Inr False"
  by code_simp

section \<open>Quantifier characters in atom position\<close>

lemma tokens_loop_single: "tokens_loop [c] 0 [] = [(c, [])]"
proof -
  have "tokens_loop [c] 0 [] = tokens_loop [c] (0 + 1) ([] @ [([c] ! 0, [])])"
    by (rule tokens_loop_none) auto
  also have "\<dots> = [] @ [([c] ! 0, [])]"
    by (rule tokens_loop_end) simp
  finally show ?thesis by simp
qed

lemma check_single:
  "c \<noteq> DOT \<Longrightarrow> check_string \<lparr>pattern = [c]\<rparr> s = Inr (s = [c])"
proof -
  assume nd: "c \<noteq> DOT"
  have "match [(c, [])] s 0 0 = Inr (1 = length s \<and> ok c (s ! 0))"
    using match_plain [of "[(c, [])]" 0 s 0] by simp
  moreover have "(1 = length s \<and> ok c (s ! 0)) = (s = [c])"
    using nd by (cases s) (auto simp: ok_def)
  ultimately show ?thesis
    by (simp add: check_string_def tokens_loop_single)
qed

lemma match_while_single:
  "match_while [(X, q)] s 0 X indx =
     Inr (indx < length s \<and> (\<forall>j. indx \<le> j \<and> j < length s \<longrightarrow> ok X (s ! j)))"
proof (induction "length s - indx" arbitrary: indx)
  case 0
  then have "\<not> indx < length s" by simp
  then show ?case by (simp add: match_while.simps [of "[(X, q)]" s 0 X indx])
next
  case (Suc n)
  then have inb: "indx < length s" by simp
  have nxt: "match [(X, q)] s (0 + 1) (indx + 1) = Inr (indx + 1 = length s)"
    using match_end [of "[(X, q)]" s "indx + 1"] by simp
  have IH: "match_while [(X, q)] s 0 X (indx + 1) =
     Inr (indx + 1 < length s \<and> (\<forall>j. indx + 1 \<le> j \<and> j < length s \<longrightarrow> ok X (s ! j)))"
    using Suc.hyps(2) by (intro Suc.hyps(1)) simp
  have st: "match_while [(X, q)] s 0 X indx =
        (if ok X (s ! indx) then
          (case match [(X, q)] s (0 + 1) (indx + 1) of
             Inl e \<Rightarrow> Inl e
           | Inr True \<Rightarrow> Inr True
           | Inr False \<Rightarrow> match_while [(X, q)] s 0 X (indx + 1))
         else Inr False)"
    using inb by (subst match_while.simps) simp
  have split: "(\<forall>j. indx \<le> j \<and> j < length s \<longrightarrow> ok X (s ! j)) \<longleftrightarrow>
        ok X (s ! indx) \<and> (\<forall>j. indx + 1 \<le> j \<and> j < length s \<longrightarrow> ok X (s ! j))"
    (is "?L \<longleftrightarrow> ?A \<and> ?R")
  proof
    assume ?L
    then show "?A \<and> ?R" using inb by auto
  next
    assume AR: "?A \<and> ?R"
    show ?L
    proof (intro allI impI)
      fix j assume j: "indx \<le> j \<and> j < length s"
      show "ok X (s ! j)"
      proof (cases "j = indx")
        case True
        then show ?thesis using AR by simp
      next
        case False
        then have "indx + 1 \<le> j \<and> j < length s" using j by simp
        then show ?thesis using AR by blast
      qed
    qed
  qed
  show ?case
  proof (cases "ok X (s ! indx)")
    case False
    then show ?thesis unfolding st split by simp
  next
    case okx: True
    show ?thesis
    proof (cases "indx + 1 = length s")
      case True
      then show ?thesis unfolding st nxt split using okx inb by auto
    next
      case False
      then have "indx + 1 < length s" using inb by simp
      then show ?thesis unfolding st nxt IH split using okx False inb by simp
    qed
  qed
qed

lemma check_star_exact:
  "check_string \<lparr>pattern = [X, STAR]\<rparr> s = Inr (\<forall>c \<in> set s. ok X c)"
proof -
  have tk: "tokens_loop [X, STAR] 0 [] = [(X, [STAR])]"
    by (simp add: tokens_loop_single_quant)
  have nxt: "match [(X, [STAR])] s (0 + 1) 0 = Inr (0 = length s)"
    using match_end [of "[(X, [STAR])]" s 0] by simp
  have st: "match [(X, [STAR])] s 0 0 =
       (case match [(X, [STAR])] s (0 + 1) 0 of
          Inl e \<Rightarrow> Inl e
        | Inr True \<Rightarrow> Inr True
        | Inr False \<Rightarrow> match_while [(X, [STAR])] s 0 X 0)"
    by (rule match_star) simp_all
  have m: "match [(X, [STAR])] s 0 0 = Inr (\<forall>j < length s. ok X (s ! j))"
  proof (cases "s = []")
    case True
    then show ?thesis unfolding st nxt by simp
  next
    case False
    then show ?thesis unfolding st nxt match_while_single by simp
  qed
  show ?thesis
    unfolding check_string_def by (simp add: tk m all_set_conv_all_nth)
qed

lemma check_plus_exact:
  "check_string \<lparr>pattern = [X, PLUS]\<rparr> s = Inr (s \<noteq> [] \<and> (\<forall>c \<in> set s. ok X c))"
proof -
  have tk: "tokens_loop [X, PLUS] 0 [] = [(X, [PLUS])]"
    by (simp add: tokens_loop_single_quant)
  have nxt: "match [(X, [PLUS])] s (0 + 1) (0 + 1) = Inr (1 = length s)"
    using match_end [of "[(X, [PLUS])]" s 1] by simp
  have st: "match [(X, [PLUS])] s 0 0 =
       (if length s \<le> 0 \<or> \<not> ok X (s ! 0) then Inr False
        else
          (case match [(X, [PLUS])] s (0 + 1) (0 + 1) of
             Inl e \<Rightarrow> Inl e
           | Inr True \<Rightarrow> Inr True
           | Inr False \<Rightarrow> match_while [(X, [PLUS])] s 0 X (0 + 1)))"
    by (rule match_plus) simp_all
  have split: "(\<forall>j < length s. ok X (s ! j)) \<longleftrightarrow>
        ok X (s ! 0) \<and> (\<forall>j. 0 + 1 \<le> j \<and> j < length s \<longrightarrow> ok X (s ! j))" if "s \<noteq> []"
  proof -
    have "0 < length s" using that by simp
    then show ?thesis
      by (metis Suc_eq_plus1 Suc_leI le_0_eq not_less_eq_eq not_gr_zero add_0)
  qed
  have m: "match [(X, [PLUS])] s 0 0 = Inr (s \<noteq> [] \<and> (\<forall>j < length s. ok X (s ! j)))"
  proof (cases "s = []")
    case True
    then show ?thesis unfolding st by simp
  next
    case ne: False
    show ?thesis
    proof (cases "ok X (s ! 0)")
      case False
      then show ?thesis unfolding st using ne split [OF ne] by simp
    next
      case okx: True
      show ?thesis
      proof (cases "1 = length s")
        case True
        then show ?thesis unfolding st nxt using ne okx split [OF ne] by auto
      next
        case False
        then have "0 + 1 < length s" using ne by (cases s) auto
        then show ?thesis
          unfolding st nxt match_while_single using ne okx False split [OF ne] by simp
      qed
    qed
  qed
  show ?thesis
    unfolding check_string_def by (simp add: tk m all_set_conv_all_nth)
qed

text \<open>
  Claim C10.  A \<open>*\<close> or \<open>+\<close> in atom position is accepted by the constructor and
  matched as a literal character.  For \<open>q\<close> either of the two characters:
  \<^item> \<open>q\<close> is ASCII, and every pattern of ASCII characters compiles;
  \<^item> wherever the scan of the tokenizer stands, at index 0 or behind the token it
    has just read, the character there becomes the atom of the next token, whatever
    it is, and only the character after it can become a quantifier;
  \<^item> the test \<open>ok\<close> of an atom \<open>q\<close> is equality with \<open>q\<close>, and in every branch of
    \<open>match\<close> and in the \<open>while\<close> loop a token with atom \<open>q\<close> consumes exactly the
    input characters equal to \<open>q\<close>, in any token list and at any position;
  \<^item> the pattern \<open>q\<close> accepts exactly the input \<open>q\<close>, the pattern \<open>q*\<close> exactly the
    inputs made of \<open>q\<close> alone, the pattern \<open>q+\<close> exactly the non-empty ones;
  \<^item> the pattern \<open>a**\<close> has the tokens \<open>('a', '*')\<close> and \<open>('*', '')\<close> and accepts the
    input \<open>a*\<close>.
\<close>

theorem C10_quantifier_characters_as_atoms:
  assumes q: "q = STAR \<or> q = PLUS"
  shows
   "isascii q
    \<and> ((\<forall>c \<in> set p. isascii c) \<longrightarrow> snd (RegexFSM_init h p) = Inr \<lparr>pattern = p\<rparr>)
    \<and> (i < length p \<longrightarrow>
         tokens_loop p i tokens =
           tokens @
           (p ! i, if i + 1 < length p \<and> (p ! (i + 1) = STAR \<or> p ! (i + 1) = PLUS)
                   then [p ! (i + 1)] else []) #
           tokens_loop p (if i + 1 < length p \<and> (p ! (i + 1) = STAR \<or> p ! (i + 1) = PLUS)
                          then i + 2 else i + 1) [])
    \<and> ok q c = (c = q)
    \<and> (pattern_ind < length ts \<and> ts ! pattern_ind = (q, quant)
         \<and> quant \<noteq> [STAR] \<and> quant \<noteq> [PLUS] \<longrightarrow>
         match ts s pattern_ind str_ind =
           (if str_ind < length s \<and> s ! str_ind = q
            then match ts s (pattern_ind + 1) (str_ind + 1)
            else Inr False))
    \<and> (pattern_ind < length ts \<and> ts ! pattern_ind = (q, [STAR]) \<longrightarrow>
         match ts s pattern_ind str_ind =
           (case match ts s (pattern_ind + 1) str_ind of
              Inl e \<Rightarrow> Inl e
            | Inr True \<Rightarrow> Inr True
            | Inr False \<Rightarrow> match_while ts s pattern_ind q str_ind))
    \<and> (pattern_ind < length ts \<and> ts ! pattern_ind = (q, [PLUS]) \<longrightarrow>
         match ts s pattern_ind str_ind =
           (if length s \<le> str_ind \<or> s ! str_ind \<noteq> q then Inr False
            else
              (case match ts s (pattern_ind + 1) (str_ind + 1) of
                 Inl e \<Rightarrow> Inl e
               | Inr True \<Rightarrow> Inr True
               | Inr False \<Rightarrow> match_while ts s pattern_ind q (str_ind + 1))))
    \<and> match_while ts s pattern_ind q indx =
         (if indx < length s \<and> s ! indx = q then
            (case match ts s (pattern_ind + 1) (indx + 1) of
               Inl e \<Rightarrow> Inl e
             | Inr True \<Rightarrow> Inr True
             | Inr False \<Rightarrow> match_while ts s pattern_ind q (indx + 1))
          else Inr False)
    \<and> check_string \<lparr>pattern = [q]\<rparr> s = Inr (s = [q])
    \<and> check_string \<lparr>pattern = [q, STAR]\<rparr> s = Inr (\<forall>c \<in> set s. c = q)
    \<and> check_string \<lparr>pattern = [q, PLUS]\<rparr> s = Inr (s \<noteq> [] \<and> (\<forall>c \<in> set s. c = q))
    \<and> tokens_loop (py_str ''a**'') 0 [] = [(of_char CHR ''a'', [STAR]), (STAR, [])]
    \<and> check_string \<lparr>pattern = py_str ''a**''\<rparr> (py_str ''a*'') = Inr True"
proof -
  have nd: "q \<noteq> DOT" using q by (auto simp: DOT_def STAR_def PLUS_def)
  have okq: "ok q c = (c = q)" for c using nd by (simp add: ok_def)
  have c1: "isascii q" using q by (auto simp: isascii_def STAR_def PLUS_def)
  have c2: "(\<forall>c \<in> set p. isascii c) \<longrightarrow> snd (RegexFSM_init h p) = Inr \<lparr>pattern = p\<rparr>"
    by (simp add: RegexFSM_init_result)
  have c3: "i < length p \<longrightarrow>
         tokens_loop p i tokens =
           tokens @
           (p ! i, if i + 1 < length p \<and> (p ! (i + 1) = STAR \<or> p ! (i + 1) = PLUS)
                   then [p ! (i + 1)] else []) #
           tokens_loop p (if i + 1 < length p \<and> (p ! (i + 1) = STAR \<or> p ! (i + 1) = PLUS)
                          then i + 2 else i + 1) []"
    using tokens_loop_atom [of i p tokens] by blast
  have c5: "pattern_ind < length ts \<and> ts ! pattern_ind = (q, quant)
         \<and> quant \<noteq> [STAR] \<and> quant \<noteq> [PLUS] \<longrightarrow>
         match ts s pattern_ind str_ind =
           (if str_ind < length s \<and> s ! str_ind = q
            then match ts s (pattern_ind + 1) (str_ind + 1)
            else Inr False)"
    using match_none [of pattern_ind ts q quant s str_ind] by (simp add: okq)
  have c6: "pattern_ind < length ts \<and> ts ! pattern_ind = (q, [STAR]) \<longrightarrow>
         match ts s pattern_ind str_ind =
           (case match ts s (pattern_ind + 1) str_ind of
              Inl e \<Rightarrow> Inl e
            | Inr True \<Rightarrow> Inr True
            | Inr False \<Rightarrow> match_while ts s pattern_ind q str_ind)"
    using match_star [of pattern_ind ts q s str_ind] by blast
  have c7: "pattern_ind < length ts \<and> ts ! pattern_ind = (q, [PLUS]) \<longrightarrow>
         match ts s pattern_ind str_ind =
           (if length s \<le> str_ind \<or> s ! str_ind \<noteq> q then Inr False
            else
              (case match ts s (pattern_ind + 1) (str_ind + 1) of
                 Inl e \<Rightarrow> Inl e
               | Inr True \<Rightarrow> Inr True
               | Inr False \<Rightarrow> match_while ts s pattern_ind q (str_ind + 1)))"
    using match_plus [of pattern_ind ts q s str_ind] by (simp add: okq)
  have c8: "match_while ts s pattern_ind q indx =
         (if indx < length s \<and> s ! indx = q then
            (case match ts s (pattern_ind + 1) (indx + 1) of
               Inl e \<Rightarrow> Inl e
             | Inr True \<Rightarrow> Inr True
             | Inr False \<Rightarrow> match_while ts s pattern_ind q (indx + 1))
          else Inr False)"
    by (subst match_while.simps) (simp add: okq)
  have c9: "check_string \<lparr>pattern = [q]\<rparr> s = Inr (s = [q])"
    using nd by (rule check_single)
  have c10: "check_string \<lparr>pattern = [q, STAR]\<rparr> s = Inr (\<forall>c \<in> set s. c = q)"
    by (simp add: check_star_exact okq)
  have c11: "check_string \<lparr>pattern = [q, PLUS]\<rparr> s = Inr (s \<noteq> [] \<and> (\<forall>c \<in> set s. c = q))"
    by (simp add: check_plus_exact okq)
  have c12: "tokens_loop (py_str ''a**'') 0 [] = [(of_char CHR ''a'', [STAR]), (STAR, [])]"
    by code_simp
  have c13: "check_string \<lparr>pattern = py_str ''a**''\<rparr> (py_str ''a*'') = Inr True"
    by code_simp
  show ?thesis
    by (intro conjI c1 c2 c3 okq c5 c6 c7 c8 c9 c10 c11 c12 c13)
qed

theorem C10_quantifier_characters_as_atoms_witness:
  "tokens_loop (py_str ''a**'') 2 [(97, [STAR])] = [(97, [STAR]), (STAR, [])]
   \<and> snd (RegexFSM_init class_heap (py_str ''a**'')) = Inr \<lparr>pattern = py_str ''a**''\<rparr>
   \<and> match [(STAR, [])] (py_str ''*'') 0 0 = Inr True
   \<and> match [(STAR, [STAR])] (py_str ''ab'') 0 0 = Inr False
   \<and> match [(PLUS, [PLUS])] (py_str ''++'') 0 0 = Inr True
   \<and> check_string \<lparr>pattern = py_str ''**''\<rparr> (py_str ''***'') = Inr True
   \<and> check_string \<lparr>pattern = py_str ''**''\<rparr> (py_str ''ab'') = Inr False
   \<and> check_string \<lparr>pattern = py_str ''+*''\<rparr> (py_str ''a'') = Inr False
   \<and> check_string \<lparr>pattern = py_str ''*+''\<rparr> (py_str ''**'') = Inr True
   \<and> check_string \<lparr>pattern = py_str ''*+''\<rparr> (py_str ''aaa'') = Inr False
   \<and> check_string \<lparr>pattern = py_str ''+''\<rparr> (py_str ''+'') = Inr True"
proof -
  have e: "tokens_loop (py_str ''a**'') 3 [] = []"
    by (rule tokens_loop_end) (simp add: py_str_def)
  have m1: "match [(STAR, [])] (py_str ''*'') 0 0 = Inr True"
    by code_simp
  have m2: "match [(STAR, [STAR])] (py_str ''ab'') 0 0 = Inr False"
    by code_simp
  have m3: "match [(PLUS, [PLUS])] (py_str ''++'') 0 0 = Inr True"
    by code_simp
  note a = C10_quantifier_characters_as_atoms
             [of STAR "py_str ''a**''" class_heap 2 "[(97, [STAR])]" _ 0
                 "[(STAR, [])]" "[]" _ 0 0, OF disjI1 [OF refl]]
  note b = C10_quantifier_characters_as_atoms
             [of PLUS "py_str ''a**''" class_heap 2 "[(97, [STAR])]" _ 0
                 "[(PLUS, [])]" "[]" _ 0 0, OF disjI2 [OF refl]]
  note c = C10_quantifier_characters_as_atoms
             [of STAR "py_str ''a**''" class_heap 2 "[(97, [STAR])]" _ 0
                 "[(STAR, [STAR])]" "[]" "py_str ''ab''" 0 0, OF disjI1 [OF refl]]
  note d = C10_quantifier_characters_as_atoms
             [of PLUS "py_str ''a**''" class_heap 2 "[(97, [STAR])]" _ 0
                 "[(PLUS, [PLUS])]" "[]" "py_str ''++''" 0 0, OF disjI2 [OF refl]]
  show ?thesis
    using a [of _ "py_str ''***''"] a [of _ "py_str ''ab''"] b [of _ "py_str ''a''"]
      a [of _ "py_str ''**''"] a [of _ "py_str ''aaa''"] b [of _ "py_str ''+''"]
      a [of _ "py_str ''*''"] c d e m1 m2 m3
    by (simp add: py_str_def STAR_def PLUS_def isascii_def)
qed

section \<open>The arguments of the recursive calls\<close>

lemma while_calls_args:
  "(p', i') \<in> set (while_calls tokens s pattern_ind symb indx) \<Longrightarrow>
     p' = pattern_ind + 1 \<and> indx < i' \<and> i' \<le> length s"
proof (induction "length s - indx" arbitrary: indx)
  case 0
  then show ?case by (subst (asm) while_calls.simps) auto
next
  case (Suc n)
  show ?case
  proof (cases "indx < length s \<and> ok symb (s ! indx)")
    case False
    then show ?thesis using Suc.prems by (subst (asm) while_calls.simps) auto
  next
    case True
    have "(p', i') = (pattern_ind + 1, indx + 1) \<or>
          (p', i') \<in> set (while_calls tokens s pattern_ind symb (indx + 1))"
      using Suc.prems True
      by (subst (asm) while_calls.simps) (auto split: sum.splits bool.splits)
    then show ?thesis
    proof
      assume "(p', i') = (pattern_ind + 1, indx + 1)"
      then show ?thesis using True by simp
    next
      assume a: "(p', i') \<in> set (while_calls tokens s pattern_ind symb (indx + 1))"
      have "p' = pattern_ind + 1 \<and> indx + 1 < i' \<and> i' \<le> length s"
        using Suc.hyps(2) a by (intro Suc.hyps(1)) auto
      then show ?thesis by simp
    qed
  qed
qed

lemma match_calls_end: "length tokens \<le> pattern_ind \<Longrightarrow> match_calls tokens s pattern_ind str_ind = []"
  by (simp add: match_calls_def)

lemma match_calls_none:
  "pattern_ind < length tokens \<Longrightarrow> tokens ! pattern_ind = (symb, quant) \<Longrightarrow>
     quant \<noteq> [STAR] \<Longrightarrow> quant \<noteq> [PLUS] \<Longrightarrow>
     match_calls tokens s pattern_ind str_ind =
       (if str_ind < length s \<and> ok symb (s ! str_ind) then [(pattern_ind + 1, str_ind + 1)] else [])"
  by (simp add: match_calls_def)

lemma match_calls_star_eq:
  "pattern_ind < length tokens \<Longrightarrow> tokens ! pattern_ind = (symb, [STAR]) \<Longrightarrow>
     \<exists>rest. match_calls tokens s pattern_ind str_ind = (pattern_ind + 1, str_ind) # rest \<and>
       set rest \<subseteq> set (while_calls tokens s pattern_ind symb str_ind)"
  by (auto simp: match_calls_def split: sum.splits bool.splits)

lemma match_calls_plus_eq:
  "pattern_ind < length tokens \<Longrightarrow> tokens ! pattern_ind = (symb, [PLUS]) \<Longrightarrow>
     match_calls tokens s pattern_ind str_ind = [] \<or>
     (\<exists>rest. match_calls tokens s pattern_ind str_ind = (pattern_ind + 1, str_ind + 1) # rest \<and>
       set rest \<subseteq> set (while_calls tokens s pattern_ind symb (str_ind + 1)))"
  by (auto simp: match_calls_def STAR_def PLUS_def split: sum.splits bool.splits)

text \<open>
  Claim C8, as the code has it.  Every recursive call that \<open>match(pattern_ind,
  str_ind)\<close> makes passes \<open>pattern_ind + 1\<close>.  Its string index is larger than
  \<open>str_ind\<close>, except in the first call made for a \<open>*\<close> token, the attempt with no
  repetition, which passes \<open>str_ind\<close> unchanged.  The call made for a token without
  quantifier passes \<open>str_ind + 1\<close>.
\<close>

theorem C8_recursive_call_indices:
  assumes k: "k < length (match_calls tokens s pattern_ind str_ind)"
    and call: "match_calls tokens s pattern_ind str_ind ! k = (p', i')"
  shows "p' = pattern_ind + 1
       \<and> (if snd (tokens ! pattern_ind) = [STAR] \<and> k = 0 then i' = str_ind else str_ind < i')
       \<and> (snd (tokens ! pattern_ind) \<noteq> [STAR] \<and> snd (tokens ! pattern_ind) \<noteq> [PLUS]
            \<longrightarrow> i' = str_ind + 1)"
proof -
  have lt: "pattern_ind < length tokens"
    using k match_calls_end [of tokens pattern_ind s str_ind]
    by (cases "pattern_ind < length tokens") auto
  obtain symb quant where tk: "tokens ! pattern_ind = (symb, quant)"
    by (cases "tokens ! pattern_ind")
  consider "quant = [STAR]" | "quant = [PLUS]" | "quant \<noteq> [STAR]" "quant \<noteq> [PLUS]"
    by blast
  then show ?thesis
  proof cases
    case 1
    obtain rest where r: "match_calls tokens s pattern_ind str_ind = (pattern_ind + 1, str_ind) # rest"
        "set rest \<subseteq> set (while_calls tokens s pattern_ind symb str_ind)"
      using match_calls_star_eq [OF lt, of symb s str_ind] tk 1 by auto
    show ?thesis
    proof (cases k)
      case 0
      then show ?thesis using r call tk 1 by simp
    next
      case (Suc j)
      then have "(p', i') \<in> set rest" using k call r by (auto simp: in_set_conv_nth)
      then have "(p', i') \<in> set (while_calls tokens s pattern_ind symb str_ind)" using r by blast
      then show ?thesis
        using while_calls_args [of p' i' tokens s pattern_ind symb str_ind] tk 1 Suc by simp
    qed
  next
    case 2
    obtain rest where r: "match_calls tokens s pattern_ind str_ind = (pattern_ind + 1, str_ind + 1) # rest"
        "set rest \<subseteq> set (while_calls tokens s pattern_ind symb (str_ind + 1))"
      using match_calls_plus_eq [OF lt, of symb s str_ind] tk 2 k by auto
    have ns: "quant \<noteq> [STAR]" using 2 by (simp add: STAR_def PLUS_def)
    show ?thesis
    proof (cases k)
      case 0
      then show ?thesis using r call tk 2 ns by simp
    next
      case (Suc j)
      then have "(p', i') \<in> set rest" using k call r by (auto simp: in_set_conv_nth)
      then have "(p', i') \<in> set (while_calls tokens s pattern_ind symb (str_ind + 1))" using r by blast
      then show ?thesis
        using while_calls_args [of p' i' tokens s pattern_ind symb "str_ind + 1"] tk 2 ns Suc by simp
    qed
  next
    case 3
    then show ?thesis
      using match_calls_none [OF lt tk 3, of s str_ind] k call tk
      by (auto split: if_splits)
  qed
qed

theorem C8_recursive_call_indices_witness:
  "match_calls (tokens_loop (py_str ''a*b'') 0 []) (py_str ''aab'') 0 0 = [(1, 0), (1, 1), (1, 2)]
   \<and> snd (tokens_loop (py_str ''a*b'') 0 [] ! 0) = [STAR]
   \<and> match_calls (tokens_loop (py_str ''a*b'') 0 []) (py_str ''aab'') 1 2 = [(2, 3)]
   \<and> snd (tokens_loop (py_str ''a*b'') 0 [] ! 1) = []"
proof -
  let ?tokens = "tokens_loop (py_str ''a*b'') 0 []"
  let ?s = "py_str ''aab''"
  have c0: "match_calls ?tokens ?s 0 0 = [(1, 0), (1, 1), (1, 2)]"
    by code_simp
  have c1: "match_calls ?tokens ?s 1 2 = [(2, 3)]"
    by code_simp
  have q0: "snd (?tokens ! 0) = [STAR]"
    by code_simp
  have q1: "snd (?tokens ! 1) = []"
    by code_simp
  have k0: "0 < length (match_calls ?tokens ?s 0 0)" and k2: "2 < length (match_calls ?tokens ?s 0 0)"
    using c0 by simp_all
  have e0: "match_calls ?tokens ?s 0 0 ! 0 = (1, 0)" and e2: "match_calls ?tokens ?s 0 0 ! 2 = (1, 2)"
    using c0 by simp_all
  have k1: "0 < length (match_calls ?tokens ?s 1 2)" and e1: "match_calls ?tokens ?s 1 2 ! 0 = (2, 3)"
    using c1 by simp_all
  note C8_recursive_call_indices [OF k0 e0] C8_recursive_call_indices [OF k2 e2]
    C8_recursive_call_indices [OF k1 e1]
  then show ?thesis using c0 c1 q0 q1 by simp
qed

text \<open>
  The call \<open>match(0, 0)\<close> that \<open>check_string\<close> makes for the pattern \<open>a*\<close> and the
  empty input calls \<open>match(1, 0)\<close>: the string index has not grown, and the token is
  not one without quantifier.
\<close>

theorem C8_zero_repetition_counterexample:
  "snd (tokens_loop (py_str ''a*'') 0 [] ! 0) = [STAR]
   \<and> match_calls (tokens_loop (py_str ''a*'') 0 []) [] 0 0 = [(1, 0)]
   \<and> \<not> 0 < snd (match_calls (tokens_loop (py_str ''a*'') 0 []) [] 0 0 ! 0)"
  by code_simp

section \<open>The state graph\<close>

text \<open>
  The first construction after the class body has run, for a pattern of ASCII
  characters, leaves the chain \<open>0 \<rightarrow> 1 \<rightarrow> \<dots> \<rightarrow> length p + 1\<close> in the store: the Start
  object at 0, one object per pattern character, the Termination object last.
\<close>

lemma init_next_state_ascii:
  "isascii ch \<Longrightarrow>
     \<exists>k. init_next_state h ch prev_state tmp = (h @ [\<lparr>cls = k, next_states = []\<rparr>], Some (length h))
        \<and> k \<noteq> StartState \<and> k \<noteq> TerminationState"
  by (simp add: init_next_state_def new_object_def)

lemma init_loop_chain:
  assumes "\<forall>c \<in> set p. isascii c"
  shows "length h = Suc n \<Longrightarrow> next_states (h ! n) = [] \<Longrightarrow>
     \<exists>h'. init_loop h (Some n) (Some n) p = (h', Inr (Some (n + length p)))
       \<and> length h' = Suc n + length p
       \<and> (\<forall>k<n. h' ! k = h ! k)
       \<and> cls (h' ! n) = cls (h ! n)
       \<and> (\<forall>k. n \<le> k \<and> k < n + length p \<longrightarrow> next_states (h' ! k) = [Some (Suc k)])
       \<and> next_states (h' ! (n + length p)) = []
       \<and> (\<forall>k<length p. cls (h' ! (Suc n + k)) \<noteq> StartState
                      \<and> cls (h' ! (Suc n + k)) \<noteq> TerminationState)"
  using assms
proof (induction p arbitrary: h n)
  case Nil
  then show ?case by auto
next
  case (Cons ch rest)
  have asc: "isascii ch" and rest: "\<forall>c \<in> set rest. isascii c"
    using Cons.prems(3) by simp_all
  obtain K where K: "init_next_state h ch (Some n) (Some n) =
        (h @ [\<lparr>cls = K, next_states = []\<rparr>], Some (length h))"
      "K \<noteq> StartState" "K \<noteq> TerminationState"
    using init_next_state_ascii [OF asc, of h "Some n" "Some n"] by blast
  define h1 where "h1 = h @ [\<lparr>cls = K, next_states = []\<rparr>]"
  define h2 where "h2 = append_next h1 n (Some (Suc n))"
  have len2: "length h2 = Suc (Suc n)"
    using Cons.prems(1) by (simp add: h2_def h1_def append_next_def)
  have h2n: "h2 ! n = (h ! n)\<lparr>next_states := [Some (Suc n)]\<rparr>"
    using Cons.prems(1,2) by (simp add: h2_def h1_def append_next_def nth_append)
  have h2new: "h2 ! Suc n = \<lparr>cls = K, next_states = []\<rparr>"
    using Cons.prems(1) by (simp add: h2_def h1_def append_next_def nth_append)
  have h2old: "h2 ! k = h ! k" if "k < n" for k
    using that Cons.prems(1) by (simp add: h2_def h1_def append_next_def nth_append)
  have step: "init_loop h (Some n) (Some n) (ch # rest) =
        init_loop h2 (Some (Suc n)) (Some (Suc n)) rest"
    using K(1) Cons.prems(1) by (simp add: h2_def h1_def)
  have emp: "next_states (h2 ! Suc n) = []" using h2new by simp
  obtain h' where IH:
      "init_loop h2 (Some (Suc n)) (Some (Suc n)) rest = (h', Inr (Some (Suc n + length rest)))"
      "length h' = Suc (Suc n) + length rest"
      "\<forall>k<Suc n. h' ! k = h2 ! k"
      "cls (h' ! Suc n) = cls (h2 ! Suc n)"
      "\<forall>k. Suc n \<le> k \<and> k < Suc n + length rest \<longrightarrow> next_states (h' ! k) = [Some (Suc k)]"
      "next_states (h' ! (Suc n + length rest)) = []"
      "\<forall>k<length rest. cls (h' ! (Suc (Suc n) + k)) \<noteq> StartState
                      \<and> cls (h' ! (Suc (Suc n) + k)) \<noteq> TerminationState"
    using Cons.IH [OF len2 emp rest] by blast
  have c1: "init_loop h (Some n) (Some n) (ch # rest) = (h', Inr (Some (n + length (ch # rest))))"
    using step IH(1) by simp
  have c2: "length h' = Suc n + length (ch # rest)" using IH(2) by simp
  have c3: "\<forall>k<n. h' ! k = h ! k" using IH(3) h2old by simp
  have c4: "cls (h' ! n) = cls (h ! n)" using IH(3) h2n by simp
  have c5: "\<forall>k. n \<le> k \<and> k < n + length (ch # rest) \<longrightarrow> next_states (h' ! k) = [Some (Suc k)]"
  proof (intro allI impI)
    fix k assume k: "n \<le> k \<and> k < n + length (ch # rest)"
    show "next_states (h' ! k) = [Some (Suc k)]"
    proof (cases "k = n")
      case True
      then show ?thesis using IH(3) h2n by simp
    next
      case False
      then have "Suc n \<le> k \<and> k < Suc n + length rest" using k by simp
      then show ?thesis using IH(5) by blast
    qed
  qed
  have c6: "next_states (h' ! (n + length (ch # rest))) = []" using IH(6) by simp
  have c7: "\<forall>k<length (ch # rest). cls (h' ! (Suc n + k)) \<noteq> StartState
                      \<and> cls (h' ! (Suc n + k)) \<noteq> TerminationState"
  proof (intro allI impI)
    fix k assume k: "k < length (ch # rest)"
    show "cls (h' ! (Suc n + k)) \<noteq> StartState \<and> cls (h' ! (Suc n + k)) \<noteq> TerminationState"
    proof (cases k)
      case 0
      then show ?thesis using IH(4) h2new K(2,3) by simp
    next
      case (Suc j)
      then have "j < length rest" using k by simp
      then show ?thesis using IH(7) Suc by simp
    qed
  qed
  show ?case using c1 c2 c3 c4 c5 c6 c7 by blast
qed

lemma RegexFSM_init_fresh_chain:
  assumes "\<forall>c \<in> set p. isascii c"
  shows "\<exists>h'. RegexFSM_init class_heap p = (h', Inr \<lparr>pattern = p\<rparr>)
       \<and> length h' = length p + 2
       \<and> cls (h' ! 0) = StartState
       \<and> cls (h' ! (length p + 1)) = TerminationState
       \<and> (\<forall>k. 1 \<le> k \<and> k \<le> length p \<longrightarrow>
             cls (h' ! k) \<noteq> StartState \<and> cls (h' ! k) \<noteq> TerminationState)
       \<and> (\<forall>k \<le> length p. next_states (h' ! k) = [Some (k + 1)])
       \<and> next_states (h' ! (length p + 1)) = []"
proof -
  have l: "length class_heap = Suc 0" and e: "next_states (class_heap ! 0) = []"
    by (simp_all add: class_heap_def)
  from init_loop_chain [OF assms l e] obtain h1 where chain:
      "init_loop class_heap (Some 0) (Some 0) p = (h1, Inr (Some (0 + length p)))
       \<and> length h1 = Suc 0 + length p
       \<and> (\<forall>k<0. h1 ! k = class_heap ! k)
       \<and> cls (h1 ! 0) = cls (class_heap ! 0)
       \<and> (\<forall>k. 0 \<le> k \<and> k < 0 + length p \<longrightarrow> next_states (h1 ! k) = [Some (Suc k)])
       \<and> next_states (h1 ! (0 + length p)) = []
       \<and> (\<forall>k<length p. cls (h1 ! (Suc 0 + k)) \<noteq> StartState
                      \<and> cls (h1 ! (Suc 0 + k)) \<noteq> TerminationState)" ..
  have h1:
      "init_loop class_heap (Some 0) (Some 0) p = (h1, Inr (Some (length p)))"
      "length h1 = Suc (length p)"
      "cls (h1 ! 0) = cls (class_heap ! 0)"
      "\<forall>k. k < length p \<longrightarrow> next_states (h1 ! k) = [Some (Suc k)]"
      "next_states (h1 ! length p) = []"
      "\<forall>k<length p. cls (h1 ! Suc k) \<noteq> StartState \<and> cls (h1 ! Suc k) \<noteq> TerminationState"
    using chain by simp_all
  define h' where "h' = append_next (h1 @ [\<lparr>cls = TerminationState, next_states = []\<rparr>])
                          (length p) (Some (length h1))"
  have r: "RegexFSM_init class_heap p = (h', Inr \<lparr>pattern = p\<rparr>)"
    using h1(1) by (simp add: RegexFSM_init_def curr_state_def new_object_def h'_def)
  have len: "length h' = length p + 2"
    using h1(2) by (simp add: h'_def append_next_def)
  have old: "h' ! k = h1 ! k" if "k < length p" for k
    using that h1(2) by (simp add: h'_def append_next_def nth_append)
  have lastn: "h' ! length p = (h1 ! length p)\<lparr>next_states := [Some (length p + 1)]\<rparr>"
    using h1(2,5) by (simp add: h'_def append_next_def nth_append)
  have tnode: "h' ! (length p + 1) = \<lparr>cls = TerminationState, next_states = []\<rparr>"
    using h1(2) by (simp add: h'_def append_next_def nth_append)
  have start: "cls (h' ! 0) = StartState"
  proof (cases "length p = 0")
    case True
    then show ?thesis using lastn h1(3) by (simp add: class_heap_def)
  next
    case False
    then show ?thesis using old [of 0] h1(3) by (simp add: class_heap_def)
  qed
  have inner: "\<forall>k. 1 \<le> k \<and> k \<le> length p \<longrightarrow>
             cls (h' ! k) \<noteq> StartState \<and> cls (h' ! k) \<noteq> TerminationState"
  proof (intro allI impI)
    fix k assume k: "1 \<le> k \<and> k \<le> length p"
    then obtain j where j: "k = Suc 0 + j" "j < length p"
      by (cases k) auto
    have c: "cls (h1 ! k) \<noteq> StartState \<and> cls (h1 ! k) \<noteq> TerminationState"
      using h1(6) j by simp
    show "cls (h' ! k) \<noteq> StartState \<and> cls (h' ! k) \<noteq> TerminationState"
    proof (cases "k = length p")
      case True
      then show ?thesis using c lastn by simp
    next
      case False
      then show ?thesis using c old [of k] k by simp
    qed
  qed
  have edges: "\<forall>k \<le> length p. next_states (h' ! k) = [Some (k + 1)]"
  proof (intro allI impI)
    fix k assume k: "k \<le> length p"
    show "next_states (h' ! k) = [Some (k + 1)]"
    proof (cases "k = length p")
      case True
      then show ?thesis using lastn by simp
    next
      case False
      then have "k < length p" using k by simp
      then show ?thesis using old [of k] h1(4) by simp
    qed
  qed
  show ?thesis using r len start tnode inner edges by simp
qed

text \<open>
  Claim C7 fails on the code.  \<open>curr_state\<close> is an attribute of the class, so every
  constructor call appends to the \<open>next_states\<close> of the same Start object.  After
  \<open>RegexFSM("a")\<close> and then \<open>RegexFSM("b")\<close> the Start object has two outgoing edges,
  to the first instance's chain and to the second's; the graph of the first
  instance has changed and is no longer a path, and the store holds two
  Termination objects.
\<close>

theorem C7_second_construction_shares_start:
  "(let h1 = fst (RegexFSM_init class_heap (py_str ''a''));
        h2 = fst (RegexFSM_init h1 (py_str ''b''))
    in next_states (h1 ! 0) = [Some 1]
     \<and> next_states (h2 ! 0) = [Some 1, Some 3]
     \<and> cls (h2 ! 2) = TerminationState \<and> next_states (h2 ! 2) = []
     \<and> cls (h2 ! 4) = TerminationState \<and> next_states (h2 ! 4) = [])"
  by code_simp

end
